theory Spec2Isabelle
  imports Main "HOL-Library.Word"
begin

section \<open>Data model and operations\<close>

text \<open>
  The development covers three parts of the repository: the hex and hash-string helpers
  and the enum helpers of \<^verbatim>\<open>helpers.ts\<close>, and the block-list decoder
  \<^verbatim>\<open>readBlocks\<close> of \<^verbatim>\<open>blockReader.ts\<close>. The binary
  reader, the block-header reader and the transaction reader that \<^verbatim>\<open>readBlocks\<close>
  calls are not among the sources; \<^verbatim>\<open>readBlocks\<close> takes them as parameters, and the
  byte cursor is modelled from the specification.
\<close>

subsection \<open>Buffers, strings and the runtime's hex codec\<close>

text \<open>
  A Buffer is a list of bytes. A JavaScript string is a list of UTF-16 code units, and its
  length is the number of code units. \<open>str\<close> writes a string literal of the source as
  such a list. (The enum helpers further down only carry member names around; those stay
  plain character lists.)
\<close>

type_synonym byte = "8 word"
type_synonym Buffer = "byte list"
type_synonym code_unit = "16 word"
type_synonym jsstring = "code_unit list"

definition str :: "string \<Rightarrow> jsstring" where
  "str s = map (\<lambda>c. of_nat (of_char c)) s"

text \<open>
  \<^verbatim>\<open>buff.toString('hex')\<close> of the runtime: two lower-case hexadecimal digits per
  byte, high nibble first.
\<close>

definition hexDigit :: "nat \<Rightarrow> code_unit" where
  "hexDigit k = (if k < 10 then of_nat (48 + k) else of_nat (87 + k))"

fun Buffer_toString_hex :: "Buffer \<Rightarrow> jsstring" where
  "Buffer_toString_hex [] = []"
| "Buffer_toString_hex (b # bs) =
     hexDigit (unat b div 16) # hexDigit (unat b mod 16) # Buffer_toString_hex bs"

text \<open>
  \<^verbatim>\<open>Buffer.from(s, 'hex')\<close> of the runtime (Node.js 8 and later): the string is read
  two code units at a time; decoding stops at the first pair that is not two hexadecimal
  digits (either case), and a trailing single code unit is dropped. It never raises. The
  decoder casts each code unit to 8 bits before it looks the digit up, so \<open>unhex\<close> sees
  only the low byte of a code unit: U+0130 counts as the digit 0, and U+0141 to U+0146 count
  as A to F.
\<close>

definition unhex :: "code_unit \<Rightarrow> nat option" where
  "unhex c =
     (let n = unat c mod 256 in
      if 48 \<le> n \<and> n \<le> 57 then Some (n - 48)
      else if 97 \<le> n \<and> n \<le> 102 then Some (n - 87)
      else if 65 \<le> n \<and> n \<le> 70 then Some (n - 55)
      else None)"

fun Buffer_from_hex :: "jsstring \<Rightarrow> Buffer" where
  "Buffer_from_hex (a # b # rest) =
     (case unhex a of
        None \<Rightarrow> []
      | Some hi \<Rightarrow>
          (case unhex b of
             None \<Rightarrow> []
           | Some lo \<Rightarrow> of_nat (16 * hi + lo) # Buffer_from_hex rest))"
| "Buffer_from_hex _ = []"

subsection \<open>helpers.ts: hex strings and hash strings\<close>

text \<open>\<^verbatim>\<open>bufferToHexPrefixString\<close>: \<^verbatim>\<open>'0x' + buff.toString('hex')\<close>.\<close>

definition bufferToHexPrefixString :: "Buffer \<Rightarrow> jsstring" where
  "bufferToHexPrefixString buff = str ''0x'' @ Buffer_toString_hex buff"

text \<open>
  \<^verbatim>\<open>hexToBuffer\<close> raises one of two errors before it decodes:
  \<^verbatim>\<open>startsWith('0x')\<close> is case sensitive, and the length test counts the prefix.
\<close>

datatype hex_error = MissingPrefix | OddDigits

definition hexToBuffer :: "jsstring \<Rightarrow> hex_error + Buffer" where
  "hexToBuffer hex =
     (if take 2 hex \<noteq> str ''0x'' then Inl MissingPrefix
      else if length hex mod 2 \<noteq> 0 then Inl OddDigits
      else Inr (Buffer_from_hex (drop 2 hex)))"

text \<open>
  \<^verbatim>\<open>has0xPrefix\<close>: \<^verbatim>\<open>id.substr(0, 2).toLowerCase() === '0x'\<close>.
  \<^verbatim>\<open>String.prototype.toLowerCase\<close> is the case mapping of the runtime's Unicode
  tables, which are no part of the repository; it is the parameter \<open>toLowerCase\<close>.
\<close>

definition has0xPrefix :: "(jsstring \<Rightarrow> jsstring) \<Rightarrow> jsstring \<Rightarrow> bool" where
  "has0xPrefix toLowerCase ident = (toLowerCase (take 2 ident) = str ''0x'')"

text \<open>
  \<^verbatim>\<open>normalizeHashString\<close> returns \<^verbatim>\<open>string | false\<close>; \<open>None\<close> stands for
  \<^verbatim>\<open>false\<close>. The \<^verbatim>\<open>typeof\<close> test of the source is always passed by a string
  argument. \<open>hashBuffer\<close> stays undefined (\<open>None\<close>) when neither length test applies.
\<close>

definition normalizeHashString :: "(jsstring \<Rightarrow> jsstring) \<Rightarrow> jsstring \<Rightarrow> jsstring option" where
  "normalizeHashString toLowerCase input =
     (let hashBuffer =
            (if length input = 66 \<and> has0xPrefix toLowerCase input
             then Some (Buffer_from_hex (drop 2 input))
             else if length input = 64 then Some (Buffer_from_hex input)
             else None)
      in case hashBuffer of
           None \<Rightarrow> None
         | Some buf \<Rightarrow>
             if length buf \<noteq> 32 then None
             else Some (str ''0x'' @ Buffer_toString_hex buf))"

text \<open>
  A hexadecimal digit is one of the code units of 0 to 9, a to f and A to F. \<open>hash_input\<close>
  holds of the inputs that the documentation of \<^verbatim>\<open>normalizeHashString\<close> calls valid:
  64 hexadecimal digits, with or without a prefix 0x or 0X. \<open>low_byte_hex\<close> is the weaker
  test that the runtime's decoder applies.
\<close>

definition isHexDigit :: "code_unit \<Rightarrow> bool" where
  "isHexDigit c =
     (let n = unat c in
      (48 \<le> n \<and> n \<le> 57) \<or> (97 \<le> n \<and> n \<le> 102) \<or> (65 \<le> n \<and> n \<le> 70))"

definition hash_input :: "jsstring \<Rightarrow> bool" where
  "hash_input input =
     ((length input = 64 \<and> list_all isHexDigit input) \<or>
      (length input = 66 \<and> (take 2 input = str ''0x'' \<or> take 2 input = str ''0X'')
         \<and> list_all isHexDigit (drop 2 input)))"

definition low_byte_hex :: "code_unit \<Rightarrow> bool" where
  "low_byte_hex c = (unhex c \<noteq> None)"

subsection \<open>helpers.ts: enum helpers and their module-level caches\<close>

text \<open>
  An enum object is the list of its own enumerable properties in property order. A numeric
  TypeScript enum carries its reverse mapping, so a property value is a number or a string;
  \<open>typeof_number\<close> is the test \<^verbatim>\<open>typeof v === 'number'\<close>. The type \<open>'n\<close> of
  numbers is a parameter: its equality stands for the comparison that \<^verbatim>\<open>Set.has\<close>
  and \<^verbatim>\<open>Map.get\<close> use.

  The caches are keyed by object identity. An object reference is a number, and the heap
  maps a reference to the enum object behind it; the helpers only read the heap, since an
  \<^verbatim>\<open>enum\<close> declaration never changes its members.
\<close>

datatype 'n enum_value = NumberValue 'n | StringValue string

type_synonym 'n enum_object = "(string \<times> 'n enum_value) list"
type_synonym objref = nat
type_synonym 'n heap = "objref \<Rightarrow> 'n enum_object"

fun typeof_number :: "'n enum_value \<Rightarrow> bool" where
  "typeof_number (NumberValue n) = True"
| "typeof_number (StringValue s) = False"

definition Object_values :: "'n enum_object \<Rightarrow> 'n enum_value list" where
  "Object_values obj = map snd obj"

definition Object_entries :: "'n enum_object \<Rightarrow> (string \<times> 'n enum_value) list" where
  "Object_entries obj = obj"

text \<open>
  \<^verbatim>\<open>createEnumChecker\<close> returns a closure over the set of the enum's numbers; the
  closure is a function value here as well.
\<close>

type_synonym 'n checker = "'n \<Rightarrow> bool"

definition createEnumChecker :: "'n enum_object \<Rightarrow> 'n checker" where
  "createEnumChecker enumVariable =
     (let enumValues = filter typeof_number (Object_values enumVariable);
          enumValueSet = set enumValues
      in (\<lambda>value. NumberValue value \<in> enumValueSet))"

text \<open>
  \<^verbatim>\<open>enumCheckFunctions\<close> is the module-level \<^verbatim>\<open>Map\<close> from enum objects to
  checkers. \<^verbatim>\<open>isEnum\<close> reads it, on a miss stores a new checker and calls itself
  again; the cache is passed in and returned.
\<close>

type_synonym 'n checker_cache = "objref \<rightharpoonup> 'n checker"

function isEnum :: "'n heap \<Rightarrow> 'n checker_cache \<Rightarrow> objref \<Rightarrow> 'n \<Rightarrow> bool \<times> 'n checker_cache" where
  "isEnum h enumCheckFunctions enumVariable value =
     (case enumCheckFunctions enumVariable of
        Some checker \<Rightarrow> (checker value, enumCheckFunctions)
      | None \<Rightarrow>
          (let newChecker = createEnumChecker (h enumVariable)
           in isEnum h (enumCheckFunctions(enumVariable \<mapsto> newChecker)) enumVariable value))"
  by pat_completeness auto
termination
  by (relation "measure (\<lambda>(h, c, e, v). if c e = None then 1 else 0)") auto

text \<open>
  \<^verbatim>\<open>enumMaps\<close> is the second module-level cache, from enum objects to a
  \<^verbatim>\<open>Map\<close> from number to member name. \<^verbatim>\<open>new Map(entries)\<close> lets a later entry
  replace an earlier one with the same key. \<open>number_entry\<close> is the filter on numbers
  followed by the swap of key and value. The rendering of a number as text is a parameter.
\<close>

type_synonym 'n description_cache = "objref \<rightharpoonup> ('n \<rightharpoonup> string)"

fun number_entry :: "string \<times> 'n enum_value \<Rightarrow> ('n \<times> string) option" where
  "number_entry (k, NumberValue v) = Some (v, k)"
| "number_entry (k, StringValue s) = None"

definition new_Map :: "('k \<times> 'v) list \<Rightarrow> ('k \<rightharpoonup> 'v)" where
  "new_Map entries = map_of (rev entries)"

function getEnumDescription ::
  "('n \<Rightarrow> string) \<Rightarrow> 'n heap \<Rightarrow> 'n description_cache \<Rightarrow> objref \<Rightarrow> 'n
     \<Rightarrow> string \<times> 'n description_cache" where
  "getEnumDescription numberToString h enumMaps enumVariable value =
     (case enumMaps enumVariable of
        Some enumMap \<Rightarrow>
          (case enumMap value of
             Some enumKey \<Rightarrow>
               (numberToString value @ [CHR '' '', CHR 0x27] @ enumKey @ [CHR 0x27], enumMaps)
           | None \<Rightarrow> (numberToString value, enumMaps))
      | None \<Rightarrow>
          (let enumValues = List.map_filter number_entry (Object_entries (h enumVariable));
               newEnumMap = new_Map enumValues
           in getEnumDescription numberToString h (enumMaps(enumVariable \<mapsto> newEnumMap))
                enumVariable value))"
  by pat_completeness auto
termination
  by (relation "measure (\<lambda>(f, h, c, e, v). if c e = None then 1 else 0)") auto

text \<open>The table that \<^verbatim>\<open>getEnumDescription\<close> stores for an enum object.\<close>

definition enum_table :: "'n enum_object \<Rightarrow> ('n \<rightharpoonup> string)" where
  "enum_table obj = new_Map (List.map_filter number_entry (Object_entries obj))"

text \<open>
  The cache states that a program can reach: the cache starts empty when the module is
  loaded, and only \<^verbatim>\<open>isEnum\<close> writes to it. \<open>isEnum_calls\<close> is the cache after a
  history of calls; \<open>checker_cache_ok\<close> is the invariant those states satisfy.
\<close>

fun isEnum_calls :: "'n heap \<Rightarrow> 'n checker_cache \<Rightarrow> (objref \<times> 'n) list \<Rightarrow> 'n checker_cache" where
  "isEnum_calls h c [] = c"
| "isEnum_calls h c ((e, v) # rest) = isEnum_calls h (snd (isEnum h c e v)) rest"

definition checker_cache_ok :: "'n heap \<Rightarrow> 'n checker_cache \<Rightarrow> bool" where
  "checker_cache_ok h c = (\<forall>e f. c e = Some f \<longrightarrow> f = createEnumChecker (h e))"

text \<open>The enum of the documentation of \<^verbatim>\<open>isEnum\<close>, with its reverse mapping.\<close>

definition Color :: "int enum_object" where
  "Color = [(''3'', StringValue ''Purple''), (''5'', StringValue ''Orange''),
            (''Purple'', NumberValue 3), (''Orange'', NumberValue 5)]"

subsection \<open>The byte cursor\<close>

text \<open>
  A reader takes the stream state and returns a result together with the new state. The
  state comes back on failure too: the reads that happened before an exception stay consumed.
\<close>

type_synonym ('e, 'a, 's) reader = "'s \<Rightarrow> ('e + 'a) \<times> 's"

text \<open>Modelled from the spec: the error kinds of the decoder (binaryReader.ts is not among
  the sources). \<open>UnknownVariant\<close> carries the tag value and the byte offset.\<close>

datatype decode_error =
    TruncatedStream
  | MalformedLength
  | UnknownVariant nat nat
  | StructuralInvariantViolation

text \<open>Modelled from the spec: the Byte Cursor of binaryReader.ts, a read position over a
  byte source. \<open>source\<close> holds the bytes that the underlying source has not yet handed
  out, \<open>position\<close> is the byte offset. The source holds every byte that will ever arrive;
  waiting for more input is not part of the model.\<close>

record cursor =
  source :: "byte list"
  position :: nat

text \<open>Modelled from the spec: a fresh Byte Cursor over a byte source, at offset 0.\<close>

definition open_cursor :: "byte list \<Rightarrow> cursor" where
  "open_cursor bs = \<lparr>source = bs, position = 0\<rparr>"

text \<open>Modelled from the spec: the widths that \<^verbatim>\<open>readUInt\<close> of the Byte Cursor accepts,
  1, 2, 4 or 8 bytes.\<close>

datatype uint_width = W1 | W2 | W4 | W8

text \<open>Modelled from the spec: the number of bytes of a width of the Byte Cursor.\<close>

fun width_bytes :: "uint_width \<Rightarrow> nat" where
  "width_bytes W1 = 1"
| "width_bytes W2 = 2"
| "width_bytes W4 = 4"
| "width_bytes W8 = 8"

text \<open>Modelled from the spec: the big-endian value of the bytes that the Byte Cursor reads
  for an integer.\<close>

definition be_value :: "byte list \<Rightarrow> nat" where
  "be_value bs = foldl (\<lambda>acc b. 256 * acc + unat b) 0 bs"

text \<open>Modelled from the spec: \<^verbatim>\<open>readFixed(n)\<close> of the Byte Cursor returns exactly
  \<open>n\<close> raw bytes, or fails with \<open>TruncatedStream\<close> and consumes nothing when fewer
  remain.\<close>

definition readFixed :: "nat \<Rightarrow> (decode_error, byte list, cursor) reader" where
  "readFixed n c =
     (if length (source c) < n then (Inl TruncatedStream, c)
      else (Inr (take n (source c)),
            c\<lparr>source := drop n (source c), position := position c + n\<rparr>))"

text \<open>Modelled from the spec: \<^verbatim>\<open>readUInt(width)\<close> of the Byte Cursor reads a
  big-endian integer of the given width, with the truncation behaviour of
  \<^verbatim>\<open>readFixed\<close>.\<close>

definition readUInt :: "uint_width \<Rightarrow> (decode_error, nat, cursor) reader" where
  "readUInt width c =
     (case readFixed (width_bytes width) c of
        (Inl err, c1) \<Rightarrow> (Inl err, c1)
      | (Inr bs, c1) \<Rightarrow> (Inr (be_value bs), c1))"

text \<open>Modelled from the spec: \<^verbatim>\<open>readLengthPrefixed(prefixWidth)\<close> of the Byte
  Cursor reads a big-endian length, fails with \<open>MalformedLength\<close> when the length exceeds
  the upper bound, and then reads exactly that many bytes. The bound is not given by the
  specification and is the parameter \<open>maxLength\<close>. The prefix stays consumed when the
  read fails after it.\<close>

definition readLengthPrefixed :: "nat \<Rightarrow> uint_width \<Rightarrow> (decode_error, byte list, cursor) reader" where
  "readLengthPrefixed maxLength prefixWidth c =
     (case readUInt prefixWidth c of
        (Inl err, c1) \<Rightarrow> (Inl err, c1)
      | (Inr len, c1) \<Rightarrow>
          if maxLength < len then (Inl MalformedLength, c1)
          else readFixed len c1)"

text \<open>Modelled from the spec: the three read primitives of the Byte Cursor as one type of
  operations, and the values they return.\<close>

datatype read_op = ReadUInt uint_width | ReadFixed nat | ReadLengthPrefixed uint_width

datatype read_value = UIntValue nat | BytesValue "byte list"

text \<open>Modelled from the spec: one operation of the Byte Cursor, dispatched to its
  primitive.\<close>

fun run_read :: "nat \<Rightarrow> read_op \<Rightarrow> (decode_error, read_value, cursor) reader" where
  "run_read maxLength (ReadUInt w) c = apfst (map_sum id UIntValue) (readUInt w c)"
| "run_read maxLength (ReadFixed n) c = apfst (map_sum id BytesValue) (readFixed n c)"
| "run_read maxLength (ReadLengthPrefixed w) c =
     apfst (map_sum id BytesValue) (readLengthPrefixed maxLength w c)"

text \<open>Modelled from the spec: a sequence of operations on one Byte Cursor; the result lists
  the cursor after each operation. A failed operation does not end the sequence, so that the
  cursor after a failure is part of the result.\<close>

fun run_reads :: "nat \<Rightarrow> read_op list \<Rightarrow> cursor \<Rightarrow> cursor list" where
  "run_reads maxLength [] c = []"
| "run_reads maxLength (op # ops) c =
     (let c' = snd (run_read maxLength op c) in c' # run_reads maxLength ops c')"

text \<open>
  \<open>advanced c c'\<close>: the cursor \<open>c'\<close> is \<open>c\<close> after some bytes were consumed. The
  offset did not go back, and the bytes left in the source are those of \<open>c\<close> without as many
  leading bytes as the offset moved.
\<close>

definition advanced :: "cursor \<Rightarrow> cursor \<Rightarrow> bool" where
  "advanced c c' =
     (position c \<le> position c' \<and>
      position c' - position c \<le> length (source c) \<and>
      source c' = drop (position c' - position c) (source c))"

subsection \<open>blockReader.ts: the block-list decoder\<close>

text \<open>
  \<^verbatim>\<open>Block\<close> of the source; the types of the header and of a transaction are
  declared in files that are not among the sources and are parameters.
\<close>

record ('h, 't) Block =
  header :: 'h
  transactions :: "'t list"

text \<open>
  The \<^verbatim>\<open>for\<close> loop of \<^verbatim>\<open>readBlocks\<close>. \<open>blocks\<close> is the array created by
  \<^verbatim>\<open>new Array<Block>(blockCount)\<close>: every slot starts empty (\<open>None\<close>) and slot
  \<open>i\<close> is assigned in iteration \<open>i\<close>. An \<^verbatim>\<open>await\<close> on a failed read rejects the
  whole call, which is the \<open>Inl\<close> result.
\<close>

function readBlocks_loop ::
  "('e, 'h, 's) reader \<Rightarrow> ('e, 't list, 's) reader \<Rightarrow> nat \<Rightarrow> nat
     \<Rightarrow> ('h, 't) Block option list \<Rightarrow> 's \<Rightarrow> ('e + ('h, 't) Block option list) \<times> 's" where
  "readBlocks_loop readBlockHeader readTransactions blockCount i blocks stream =
     (if i < blockCount then
        (case readBlockHeader stream of
           (Inl err, stream1) \<Rightarrow> (Inl err, stream1)
         | (Inr blockHeader, stream1) \<Rightarrow>
             (case readTransactions stream1 of
                (Inl err, stream2) \<Rightarrow> (Inl err, stream2)
              | (Inr txs, stream2) \<Rightarrow>
                  (let block = \<lparr>header = blockHeader, transactions = txs\<rparr>
                   in readBlocks_loop readBlockHeader readTransactions blockCount (i + 1)
                        (blocks[i := Some block]) stream2)))
      else (Inr blocks, stream))"
  by pat_completeness auto
termination
  by (relation "measure (\<lambda>(rh, rt, blockCount, i, blocks, stream). blockCount - i)") auto

text \<open>
  \<^verbatim>\<open>readBlocks\<close>. Its three component readers are parameters:
  \<^verbatim>\<open>stream.readUInt32BE\<close>, \<^verbatim>\<open>readBlockHeader\<close> and
  \<^verbatim>\<open>readTransactions\<close>.
\<close>

definition readBlocks ::
  "('e, nat, 's) reader \<Rightarrow> ('e, 'h, 's) reader \<Rightarrow> ('e, 't list, 's) reader
     \<Rightarrow> 's \<Rightarrow> ('e + ('h, 't) Block option list) \<times> 's" where
  "readBlocks readUInt32BE readBlockHeader readTransactions stream =
     (case readUInt32BE stream of
        (Inl err, stream0) \<Rightarrow> (Inl err, stream0)
      | (Inr blockCount, stream0) \<Rightarrow>
          (let blocks = replicate blockCount None
           in readBlocks_loop readBlockHeader readTransactions blockCount 0 blocks stream0))"

text \<open>
  Vocabulary for the groups of a stream. A group is one header followed by one transaction
  list. \<open>group_result rh rt s\<close> is what the group that starts in state \<open>s\<close> decodes to: the
  Block assembled from its header and its transaction list, or the error of the first of the
  two reads that fails. \<open>group_end\<close> is the state in which the reads of that group leave the
  stream, and \<open>group_start rh rt s k\<close> is the state in which group \<open>k\<close> starts when
  group 0 starts in \<open>s\<close>.
\<close>

definition group_result ::
  "('e, 'h, 's) reader \<Rightarrow> ('e, 't list, 's) reader \<Rightarrow> 's \<Rightarrow> 'e + ('h, 't) Block" where
  "group_result rh rt s =
     (case rh s of
        (Inl err, s1) \<Rightarrow> Inl err
      | (Inr h, s1) \<Rightarrow>
          (case rt s1 of
             (Inl err, s2) \<Rightarrow> Inl err
           | (Inr txs, s2) \<Rightarrow> Inr \<lparr>header = h, transactions = txs\<rparr>))"

definition group_end :: "('e, 'h, 's) reader \<Rightarrow> ('e, 't list, 's) reader \<Rightarrow> 's \<Rightarrow> 's" where
  "group_end rh rt s =
     (case rh s of
        (Inl err, s1) \<Rightarrow> s1
      | (Inr h, s1) \<Rightarrow> snd (rt s1))"

fun group_start :: "('e, 'h, 's) reader \<Rightarrow> ('e, 't list, 's) reader \<Rightarrow> 's \<Rightarrow> nat \<Rightarrow> 's" where
  "group_start rh rt s 0 = s"
| "group_start rh rt s (Suc k) = group_start rh rt (group_end rh rt s) k"

subsection \<open>Component readers for the examples\<close>

text \<open>Modelled from the spec: sequencing of two reads of the decoder, where the first
  failure ends the sequence (the readers of binaryReader.ts, blockHeaderReader.ts and
  txReader.ts are not among the sources).\<close>

definition bind_reader ::
  "('e, 'a, 's) reader \<Rightarrow> ('a \<Rightarrow> ('e, 'b, 's) reader) \<Rightarrow> ('e, 'b, 's) reader" where
  "bind_reader r f s = (case r s of (Inl err, s1) \<Rightarrow> (Inl err, s1) | (Inr a, s1) \<Rightarrow> f a s1)"

text \<open>Modelled from the spec: a decoder step that reads nothing and returns a value.\<close>

definition return_reader :: "'a \<Rightarrow> ('e, 'a, 's) reader" where
  "return_reader a s = (Inr a, s)"

text \<open>Modelled from the spec: the Block Header of blockHeaderReader.ts, a record of
  fixed-width fields.\<close>

record BlockHeader =
  version :: nat
  parent_block :: "byte list"
  tx_merkle_root :: "byte list"
  state_root :: "byte list"
  microblock_root :: "byte list"
  timestamp :: nat

text \<open>Modelled from the spec: the Block Header Decoder of blockHeaderReader.ts, a
  fixed-layout read without branching: version byte, parent-block identifier, three root
  hashes, timestamp. The width of a hash and the width of the timestamp are parameters.\<close>

definition readBlockHeader_spec ::
  "nat \<Rightarrow> uint_width \<Rightarrow> (decode_error, BlockHeader, cursor) reader" where
  "readBlockHeader_spec hashWidth timestampWidth =
     bind_reader (readUInt W1) (\<lambda>v.
     bind_reader (readFixed hashWidth) (\<lambda>parent.
     bind_reader (readFixed hashWidth) (\<lambda>txRoot.
     bind_reader (readFixed hashWidth) (\<lambda>stateRoot.
     bind_reader (readFixed hashWidth) (\<lambda>microblockRoot.
     bind_reader (readUInt timestampWidth) (\<lambda>ts.
     return_reader \<lparr>version = v, parent_block = parent, tx_merkle_root = txRoot,
       state_root = stateRoot, microblock_root = microblockRoot, timestamp = ts\<rparr>))))))"

text \<open>Modelled from the spec: that many invocations of one decoder in input order, ending
  at the first failure (the transaction list of txReader.ts).\<close>

fun read_many :: "('e, 'a, 's) reader \<Rightarrow> nat \<Rightarrow> ('e, 'a list, 's) reader" where
  "read_many r 0 s = (Inr [], s)"
| "read_many r (Suc n) s =
     (case r s of
        (Inl err, s1) \<Rightarrow> (Inl err, s1)
      | (Inr x, s1) \<Rightarrow>
          (case read_many r n s1 of
             (Inl err, s2) \<Rightarrow> (Inl err, s2)
           | (Inr xs, s2) \<Rightarrow> (Inr (x # xs), s2)))"

text \<open>Modelled from the spec: the transaction list of txReader.ts, a 4-byte transaction
  count followed by that many Transaction Decoder invocations. The Transaction Decoder is a
  parameter.\<close>

definition readTransactions_spec ::
  "(decode_error, 't, cursor) reader \<Rightarrow> (decode_error, 't list, cursor) reader" where
  "readTransactions_spec readTransaction = bind_reader (readUInt W4) (read_many readTransaction)"

text \<open>
  The readers of the examples: hashes of one byte, a timestamp of four bytes, and a one-byte
  integer in the place of a transaction.
\<close>

abbreviation example_readBlockHeader :: "(decode_error, BlockHeader, cursor) reader" where
  "example_readBlockHeader \<equiv> readBlockHeader_spec 1 W4"

abbreviation example_readTransactions :: "(decode_error, nat list, cursor) reader" where
  "example_readTransactions \<equiv> readTransactions_spec (readUInt W1)"

text \<open>A stream of two blocks: block A with two transactions, then block B with one.\<close>

definition two_blocks :: "byte list" where
  "two_blocks =
     [0, 0, 0, 2,
      1, 0xA0, 0xA1, 0xA2, 0xA3, 0, 0, 0, 7,   0, 0, 0, 2, 0x11, 0x12,
      1, 0xB0, 0xB1, 0xB2, 0xB3, 0, 0, 0, 9,   0, 0, 0, 1, 0x21]"

definition block_A :: "(BlockHeader, nat) Block" where
  "block_A = \<lparr>header = \<lparr>version = 1, parent_block = [0xA0], tx_merkle_root = [0xA1],
       state_root = [0xA2], microblock_root = [0xA3], timestamp = 7\<rparr>,
     transactions = [0x11, 0x12]\<rparr>"

definition block_B :: "(BlockHeader, nat) Block" where
  "block_B = \<lparr>header = \<lparr>version = 1, parent_block = [0xB0], tx_merkle_root = [0xB1],
       state_root = [0xB2], microblock_root = [0xB3], timestamp = 9\<rparr>,
     transactions = [0x21]\<rparr>"

definition example_reads :: "read_op list" where
  "example_reads = [ReadUInt W1, ReadLengthPrefixed W1, ReadFixed 1]"

text \<open>A string of 64 code units U+0130 (capital I with dot above): no hexadecimal digit.\<close>

definition dotted_I_input :: jsstring where
  "dotted_I_input = replicate 64 0x130"

declare isEnum.simps [simp del]
declare getEnumDescription.simps [simp del]
declare readBlocks_loop.simps [simp del]

section \<open>Properties\<close>

subsection \<open>The hex codec\<close>

lemma str_0x: "str ''0x'' = [0x30, 0x78]"
  by (simp add: str_def)

lemma unhex_lt: "unhex c = Some h \<Longrightarrow> h < 16"
  by (auto simp: unhex_def Let_def split: if_splits)

lemma unat_small_unit: "n < 256 \<Longrightarrow> unat (of_nat n :: code_unit) = n"
  by (simp add: unat_of_nat)

lemma unhex_hexDigit:
  assumes "k < 16"
  shows "unhex (hexDigit k) = Some k"
proof (cases "k < 10")
  case True
  then have "unat (of_nat (48 + k) :: code_unit) = 48 + k"
    by (intro unat_small_unit) simp
  then show ?thesis using True by (simp add: unhex_def hexDigit_def del: of_nat_add)
next
  case False
  then have "unat (of_nat (87 + k) :: code_unit) = 87 + k"
    using assms by (intro unat_small_unit) simp
  then show ?thesis using False assms by (simp add: unhex_def hexDigit_def del: of_nat_add)
qed

lemma unat_byte_of_nibbles:
  assumes "hi < 16" "lo < 16"
  shows "unat (of_nat (16 * hi + lo) :: byte) = 16 * hi + lo"
proof -
  have m: "unat (of_nat n :: byte) = n mod 256" for n
    by (simp add: unat_of_nat)
  have "16 * hi + lo < 256" using assms by arith
  then show ?thesis unfolding m by simp
qed

lemma unat_byte_div_lt: "unat (b :: byte) div 16 < 16"
proof -
  have "unat b < 256" using unsigned_less [of b] by simp
  then show ?thesis by arith
qed

lemma from_hex_toString_hex: "Buffer_from_hex (Buffer_toString_hex b) = b"
proof (induction b)
  case Nil
  show ?case by simp
next
  case (Cons x xs)
  have hi: "unhex (hexDigit (unat x div 16)) = Some (unat x div 16)"
    by (rule unhex_hexDigit) (rule unat_byte_div_lt)
  have lo: "unhex (hexDigit (unat x mod 16)) = Some (unat x mod 16)"
    by (rule unhex_hexDigit) simp
  show ?case using Cons.IH by (simp add: hi lo)
qed

lemma length_toString_hex: "length (Buffer_toString_hex b) = 2 * length b"
  by (induction b) auto

text \<open>
  Claim C8. Encoding a buffer with \<^verbatim>\<open>bufferToHexPrefixString\<close> and decoding the
  string with \<^verbatim>\<open>hexToBuffer\<close> succeeds and gives the buffer back.
\<close>

theorem hex_round_trip: "hexToBuffer (bufferToHexPrefixString b) = Inr b"
  by (simp add: hexToBuffer_def bufferToHexPrefixString_def from_hex_toString_hex
      length_toString_hex str_0x)

lemma from_hex_all:
  "list_all low_byte_hex s \<Longrightarrow> even (length s) \<Longrightarrow>
     2 * length (Buffer_from_hex s) = length s"
proof (induction s rule: Buffer_from_hex.induct)
  case (1 a b rest)
  from "1.prems" obtain hi lo where hl: "unhex a = Some hi" "unhex b = Some lo"
    by (auto simp: low_byte_hex_def)
  have "2 * length (Buffer_from_hex rest) = length rest"
    using "1.IH" [OF hl] "1.prems" by simp
  then show ?case using hl by simp
qed simp_all

lemma from_hex_not_all:
  "\<not> list_all low_byte_hex s \<Longrightarrow> even (length s) \<Longrightarrow>
     2 * length (Buffer_from_hex s) < length s"
proof (induction s rule: Buffer_from_hex.induct)
  case (1 a b rest)
  show ?case
  proof (cases "low_byte_hex a \<and> low_byte_hex b")
    case True
    then obtain hi lo where hl: "unhex a = Some hi" "unhex b = Some lo"
      by (auto simp: low_byte_hex_def)
    have "2 * length (Buffer_from_hex rest) < length rest"
      using "1.IH" [OF hl] "1.prems" True by simp
    then show ?thesis using hl by simp
  next
    case False
    then show ?thesis by (auto simp: low_byte_hex_def split: option.splits)
  qed
qed simp_all

lemma from_hex_length_32:
  assumes "length s = 64"
  shows "(length (Buffer_from_hex s) = 32) = list_all low_byte_hex s"
proof (cases "list_all low_byte_hex s")
  case True
  then have "2 * length (Buffer_from_hex s) = length s"
    using assms by (intro from_hex_all) simp_all
  then show ?thesis using True assms by simp
next
  case False
  then have "2 * length (Buffer_from_hex s) < length s"
    using assms by (intro from_hex_not_all) simp_all
  then show ?thesis using False assms by simp
qed

text \<open>
  What \<^verbatim>\<open>normalizeHashString\<close> accepts: the length and the prefix are as documented,
  and the digits are tested by their low bytes.
\<close>

lemma normalizeHashString_accepts:
  "(normalizeHashString toLowerCase input \<noteq> None) =
     ((length input = 66 \<and> has0xPrefix toLowerCase input \<and> list_all low_byte_hex (drop 2 input)) \<or>
      (length input = 64 \<and> list_all low_byte_hex input))"
proof -
  consider "length input = 64" | "length input = 66" | "length input \<noteq> 64" "length input \<noteq> 66"
    by blast
  then show ?thesis
  proof cases
    case 1
    then show ?thesis
      using from_hex_length_32 [of input] by (simp add: normalizeHashString_def)
  next
    case 2
    then show ?thesis
      using from_hex_length_32 [of "drop 2 input"] by (simp add: normalizeHashString_def)
  next
    case 3
    then show ?thesis by (simp add: normalizeHashString_def)
  qed
qed

lemma isHexDigit_low_byte_hex: "isHexDigit c \<Longrightarrow> low_byte_hex c"
  by (auto simp: isHexDigit_def low_byte_hex_def unhex_def Let_def)

lemma dotted_I_decoded: "Buffer_from_hex dotted_I_input = replicate 32 0"
  by code_simp

lemma zero_bytes_encoded: "Buffer_toString_hex (replicate 32 0) = replicate 64 0x30"
  by code_simp

lemma dotted_I_not_hex: "\<not> hash_input dotted_I_input"
  by code_simp

text \<open>
  Claim C9 holds of the documentation of \<^verbatim>\<open>normalizeHashString\<close> (an invalid input
  returns \<^verbatim>\<open>false\<close>) and fails on the code. The function takes an input for valid
  when the runtime's decoder gets 32 bytes out of it, and the decoder looks at the low byte
  of a code unit only. On the 64 code units U+0130, which are no hexadecimal digits, the
  function returns 0x followed by 64 zeros, whatever the case mapping is.
\<close>

theorem normalizeHashString_non_hex_accepted:
  "normalizeHashString toLowerCase dotted_I_input = Some (str ''0x'' @ replicate 64 0x30) \<and>
   \<not> hash_input dotted_I_input"
proof -
  have l: "length dotted_I_input = 64" by (simp add: dotted_I_input_def)
  have "normalizeHashString toLowerCase dotted_I_input = Some (str ''0x'' @ replicate 64 0x30)"
    using l by (simp add: normalizeHashString_def dotted_I_decoded zero_bytes_encoded)
  then show ?thesis using dotted_I_not_hex by simp
qed

lemma example_buffer_hex: "bufferToHexPrefixString [0x0a, 0xff, 0x10] = str ''0x0aff10''"
  by code_simp

theorem hex_round_trip_witness:
  "bufferToHexPrefixString [0x0a, 0xff, 0x10] = str ''0x0aff10'' \<and>
   hexToBuffer (str ''0x0aff10'') = Inr [0x0a, 0xff, 0x10]"
  using hex_round_trip [of "[0x0a, 0xff, 0x10]"] example_buffer_hex by simp

subsection \<open>The enum helpers\<close>

lemma isEnum_hit: "c e = Some f \<Longrightarrow> isEnum h c e v = (f v, c)"
  by (simp add: isEnum.simps)

lemma isEnum_miss:
  assumes "c e = None"
  shows "isEnum h c e v = (createEnumChecker (h e) v, c(e \<mapsto> createEnumChecker (h e)))"
proof -
  have "isEnum h c e v = isEnum h (c(e \<mapsto> createEnumChecker (h e))) e v"
    using assms by (subst isEnum.simps) (simp add: Let_def)
  also have "\<dots> = (createEnumChecker (h e) v, c(e \<mapsto> createEnumChecker (h e)))"
    by (rule isEnum_hit) simp
  finally show ?thesis .
qed

lemma isEnum_cache:
  "snd (isEnum h c e v) = (case c e of None \<Rightarrow> c(e \<mapsto> createEnumChecker (h e)) | Some f \<Rightarrow> c)"
  by (cases "c e") (simp_all add: isEnum_hit isEnum_miss)

lemma createEnumChecker_iff:
  "createEnumChecker obj v = (NumberValue v \<in> snd ` set obj)"
  by (auto simp: createEnumChecker_def Object_values_def)

lemma isEnum_ok_result:
  assumes "checker_cache_ok h c"
  shows "fst (isEnum h c e v) = (NumberValue v \<in> snd ` set (h e))"
proof (cases "c e")
  case None
  then show ?thesis by (simp add: isEnum_miss createEnumChecker_iff)
next
  case (Some f)
  then have "f = createEnumChecker (h e)" using assms by (simp add: checker_cache_ok_def)
  then show ?thesis using Some by (simp add: isEnum_hit createEnumChecker_iff)
qed

lemma isEnum_ok_preserved:
  "checker_cache_ok h c \<Longrightarrow> checker_cache_ok h (snd (isEnum h c e v))"
  by (cases "c e") (auto simp: isEnum_cache checker_cache_ok_def)

lemma isEnum_calls_ok:
  "checker_cache_ok h c \<Longrightarrow> checker_cache_ok h (isEnum_calls h c calls)"
proof (induction calls arbitrary: c)
  case Nil
  then show ?case by simp
next
  case (Cons call calls)
  obtain e v where call: "call = (e, v)" by (cases call)
  have "checker_cache_ok h (snd (isEnum h c e v))"
    using Cons.prems by (rule isEnum_ok_preserved)
  then show ?case using Cons.IH call by simp
qed

lemma empty_ok: "checker_cache_ok h Map.empty"
  by (simp add: checker_cache_ok_def)

text \<open>
  Claim C10. In every cache state that a history of \<^verbatim>\<open>isEnum\<close> calls leaves behind,
  \<^verbatim>\<open>isEnum\<close> on an enum object and a number returns true exactly when the number is
  one of the numeric values of the object, and the same call made again, on the cache that
  the first call left, returns the same answer.
\<close>
theorem isEnum_membership:
  "fst (isEnum h (isEnum_calls h Map.empty calls) e v) = (NumberValue v \<in> snd ` set (h e)) \<and>
   fst (isEnum h (snd (isEnum h (isEnum_calls h Map.empty calls) e v)) e v)
     = fst (isEnum h (isEnum_calls h Map.empty calls) e v)"
proof -
  have ok: "checker_cache_ok h (isEnum_calls h Map.empty calls)"
    by (rule isEnum_calls_ok) (rule empty_ok)
  have ok': "checker_cache_ok h (snd (isEnum h (isEnum_calls h Map.empty calls) e v))"
    using ok by (rule isEnum_ok_preserved)
  show ?thesis
    by (simp only: isEnum_ok_result [OF ok] isEnum_ok_result [OF ok'])
qed

lemma getEnumDescription_hit:
  "m e = Some t \<Longrightarrow> snd (getEnumDescription f h m e v) = m"
  by (simp add: getEnumDescription.simps split: option.splits)

lemma getEnumDescription_miss:
  assumes "m e = None"
  shows "snd (getEnumDescription f h m e v) = m(e \<mapsto> enum_table (h e))"
proof -
  have "getEnumDescription f h m e v = getEnumDescription f h (m(e \<mapsto> enum_table (h e))) e v"
    using assms by (subst getEnumDescription.simps) (simp add: Let_def enum_table_def)
  then show ?thesis by (simp add: getEnumDescription_hit)
qed

lemma getEnumDescription_cache:
  "snd (getEnumDescription f h m e v) =
     (case m e of None \<Rightarrow> m(e \<mapsto> enum_table (h e)) | Some t \<Rightarrow> m)"
  by (cases "m e") (simp_all add: getEnumDescription_hit getEnumDescription_miss)

text \<open>
  Claim C4, as amended. The shared lookup state consists of the two module-level caches,
  and \<^verbatim>\<open>isEnum\<close> and \<^verbatim>\<open>getEnumDescription\<close> do write to them, but only to add:
  a call stores the table of its enum object when the cache has no entry for that object,
  and leaves the cache as it is otherwise. The table of an enum object is therefore built
  once, and an entry is never replaced or removed.
\<close>

theorem lookup_caches_grow_only:
  "snd (isEnum h enumCheckFunctions enumVariable v) =
     (case enumCheckFunctions enumVariable of
        None \<Rightarrow> enumCheckFunctions(enumVariable \<mapsto> createEnumChecker (h enumVariable))
      | Some checker \<Rightarrow> enumCheckFunctions) \<and>
   snd (getEnumDescription numberToString h enumMaps enumVariable v) =
     (case enumMaps enumVariable of
        None \<Rightarrow> enumMaps(enumVariable \<mapsto> enum_table (h enumVariable))
      | Some enumMap \<Rightarrow> enumMaps)"
  by (simp only: isEnum_cache getEnumDescription_cache)

theorem lookup_caches_grow_only_witness:
  "snd (isEnum (\<lambda>r. Color) Map.empty 0 3) = [0 \<mapsto> createEnumChecker Color] \<and>
   snd (isEnum (\<lambda>r. Color) [0 \<mapsto> createEnumChecker Color] 0 5) = [0 \<mapsto> createEnumChecker Color] \<and>
   snd (getEnumDescription (\<lambda>n. ''n'') (\<lambda>r. Color) Map.empty 0 3) = [0 \<mapsto> enum_table Color]"
  using lookup_caches_grow_only [of "\<lambda>r. Color" Map.empty 0 3 "\<lambda>n. ''n''" Map.empty]
    lookup_caches_grow_only [of "\<lambda>r. Color" "[0 \<mapsto> createEnumChecker Color]" 0 5
      "\<lambda>n. ''n''" Map.empty]
  by simp

text \<open>
  Claim C4 as stated fails. Both caches are empty when the module is loaded, and the first
  call for an enum object leaves an entry behind: the call has changed the shared state.
\<close>

theorem shared_cache_mutated_counterexample:
  "snd (isEnum (\<lambda>r. Color) Map.empty 0 3) \<noteq> Map.empty \<and>
   snd (getEnumDescription (\<lambda>n. ''n'') (\<lambda>r. Color) Map.empty 0 3) \<noteq> Map.empty"
proof
  show "snd (isEnum (\<lambda>r. Color) Map.empty 0 3) \<noteq> Map.empty"
  proof
    assume "snd (isEnum (\<lambda>r. Color) Map.empty 0 3) = Map.empty"
    then have "(Map.empty(0 \<mapsto> createEnumChecker Color)) (0::nat)
        = (Map.empty :: int checker_cache) 0"
      by (simp add: isEnum_cache)
    then show False by simp
  qed
  show "snd (getEnumDescription (\<lambda>n. ''n'') (\<lambda>r. Color) Map.empty 0 3) \<noteq> Map.empty"
  proof
    assume "snd (getEnumDescription (\<lambda>n. ''n'') (\<lambda>r. Color) Map.empty 0 3) = Map.empty"
    then have "(Map.empty(0 \<mapsto> enum_table Color)) (0::nat)
        = (Map.empty :: int description_cache) 0"
      by (simp add: getEnumDescription_cache)
    then show False by simp
  qed
qed

theorem isEnum_membership_witness:
  "fst (isEnum (\<lambda>r. Color) (isEnum_calls (\<lambda>r. Color) Map.empty [(0, 5), (0, 4)]) 0 3) \<and>
   \<not> fst (isEnum (\<lambda>r. Color) (isEnum_calls (\<lambda>r. Color) Map.empty []) 0 4) \<and>
   fst (isEnum (\<lambda>r. Color)
         (snd (isEnum (\<lambda>r. Color) (isEnum_calls (\<lambda>r. Color) Map.empty []) 0 3)) 0 3)"
  using isEnum_membership [of "\<lambda>r. Color" "[(0, 5), (0, 4)]" 0 3]
    isEnum_membership [of "\<lambda>r. Color" "[]" 0 4]
    isEnum_membership [of "\<lambda>r. Color" "[]" 0 3]
  by (simp add: Color_def)

subsection \<open>The loop of the block-list decoder\<close>

lemma loop_done: "\<not> i < n \<Longrightarrow> readBlocks_loop rh rt n i blocks s = (Inr blocks, s)"
  by (simp add: readBlocks_loop.simps)

lemma loop_ok:
  "i < n \<Longrightarrow> group_result rh rt s = Inr b \<Longrightarrow>
     readBlocks_loop rh rt n i blocks s =
       readBlocks_loop rh rt n (Suc i) (blocks[i := Some b]) (group_end rh rt s)"
  by (subst readBlocks_loop.simps)
    (auto simp: group_result_def group_end_def split: prod.splits sum.splits)

lemma loop_fail:
  "i < n \<Longrightarrow> group_result rh rt s = Inl e \<Longrightarrow>
     readBlocks_loop rh rt n i blocks s = (Inl e, group_end rh rt s)"
  by (subst readBlocks_loop.simps)
    (auto simp: group_result_def group_end_def split: prod.splits sum.splits)

lemma group_start_Suc_right:
  "group_start rh rt s (Suc k) = group_end rh rt (group_start rh rt s k)"
  by (induction k arbitrary: s) simp_all

text \<open>Loop invariant: after the groups before index i, the loop is in some state; what it returns.\<close>

lemma loop_success:
  "readBlocks_loop rh rt n i blocks s = (Inr out, s') \<Longrightarrow> i \<le> n \<Longrightarrow> length blocks = n \<Longrightarrow>
     s' = group_start rh rt s (n - i) \<and> length out = n \<and>
     (\<forall>j<i. out ! j = blocks ! j) \<and>
     (\<forall>j<n - i. \<exists>b. group_result rh rt (group_start rh rt s j) = Inr b \<and> out ! (i + j) = Some b)"
proof (induction "n - i" arbitrary: i blocks s)
  case 0
  then have "\<not> i < n" by simp
  then show ?case using "0.prems" by (simp add: loop_done)
next
  case (Suc d)
  then have lt: "i < n" by simp
  show ?case
  proof (cases "group_result rh rt s")
    case (Inl e)
    then show ?thesis using Suc.prems lt by (simp add: loop_fail)
  next
    case (Inr b)
    let ?blocks = "blocks[i := Some b]"
    let ?s = "group_end rh rt s"
    have run: "readBlocks_loop rh rt n (Suc i) ?blocks ?s = (Inr out, s')"
      using Suc.prems(1) loop_ok [OF lt Inr] by simp
    have d: "d = n - Suc i" using Suc.hyps(2) by simp
    have ih: "s' = group_start rh rt ?s (n - Suc i) \<and> length out = n \<and>
       (\<forall>j<Suc i. out ! j = ?blocks ! j) \<and>
       (\<forall>j<n - Suc i. \<exists>b. group_result rh rt (group_start rh rt ?s j) = Inr b
          \<and> out ! (Suc i + j) = Some b)"
      using Suc.hyps(1) [OF d run] lt Suc.prems(3) by simp
    have n: "n - i = Suc (n - Suc i)" using lt by simp
    have s': "s' = group_start rh rt s (n - i)" using ih n by simp
    have pre: "\<forall>j<i. out ! j = blocks ! j"
    proof (intro allI impI)
      fix j assume "j < i"
      then have "out ! j = ?blocks ! j" using ih by simp
      then show "out ! j = blocks ! j" using \<open>j < i\<close> by simp
    qed
    have at_i: "out ! i = Some b"
    proof -
      have "out ! i = ?blocks ! i" using ih by simp
      then show ?thesis using lt Suc.prems(3) by simp
    qed
    have post: "\<forall>j<n - i. \<exists>b. group_result rh rt (group_start rh rt s j) = Inr b
        \<and> out ! (i + j) = Some b"
    proof (intro allI impI)
      fix j assume j: "j < n - i"
      show "\<exists>b. group_result rh rt (group_start rh rt s j) = Inr b \<and> out ! (i + j) = Some b"
      proof (cases j)
        case 0
        then show ?thesis using Inr at_i by simp
      next
        case (Suc j')
        then have "j' < n - Suc i" using j by simp
        then obtain b' where "group_result rh rt (group_start rh rt ?s j') = Inr b'"
          "out ! (Suc i + j') = Some b'" using ih by blast
        then show ?thesis using Suc by simp
      qed
    qed
    show ?thesis using s' ih pre post by simp
  qed
qed


lemma loop_first_error:
  "i + k < n \<Longrightarrow>
   (\<forall>j<k. \<exists>b. group_result rh rt (group_start rh rt s j) = Inr b) \<Longrightarrow>
   group_result rh rt (group_start rh rt s k) = Inl e \<Longrightarrow>
   readBlocks_loop rh rt n i blocks s = (Inl e, group_start rh rt s (Suc k))"
proof (induction k arbitrary: i blocks s)
  case 0
  then show ?case by (simp add: loop_fail)
next
  case (Suc k)
  then have lt: "i < n" by simp
  from Suc.prems(2) obtain b where b: "group_result rh rt s = Inr b" by force
  have rest: "\<forall>j<k. \<exists>b. group_result rh rt (group_start rh rt (group_end rh rt s) j) = Inr b"
  proof (intro allI impI)
    fix j assume "j < k"
    then have "Suc j < Suc k" by simp
    then show "\<exists>b. group_result rh rt (group_start rh rt (group_end rh rt s) j) = Inr b"
      using Suc.prems(2) by fastforce
  qed
  have "readBlocks_loop rh rt n (Suc i) (blocks[i := Some b]) (group_end rh rt s)
      = (Inl e, group_start rh rt (group_end rh rt s) (Suc k))"
    using Suc.prems(1,3) by (intro Suc.IH rest) simp_all
  then show ?case using loop_ok [OF lt b] by simp
qed


lemma group_result_Inl_iff:
  "(group_result rh rt s = Inl e) =
     (fst (rh s) = Inl e \<or> ((\<exists>h. fst (rh s) = Inr h) \<and> fst (rt (snd (rh s))) = Inl e))"
  by (auto simp: group_result_def split: prod.splits sum.splits)

lemma group_result_Inr_iff:
  "(group_result rh rt s = Inr b) =
     (\<exists>h txs. fst (rh s) = Inr h \<and> fst (rt (snd (rh s))) = Inr txs \<and>
        b = \<lparr>header = h, transactions = txs\<rparr>)"
  by (auto simp: group_result_def split: prod.splits sum.splits)

lemma readBlocks_count_ok:
  "fst (ru s) = Inr n \<Longrightarrow>
     readBlocks ru rh rt s = readBlocks_loop rh rt n 0 (replicate n None) (snd (ru s))"
  by (cases "ru s") (simp add: readBlocks_def)

lemma readBlocks_count_fail:
  "fst (ru s) = Inl e \<Longrightarrow> readBlocks ru rh rt s = (Inl e, snd (ru s))"
  by (cases "ru s") (simp add: readBlocks_def)

text \<open>
  Claim C1. If a component read of \<^verbatim>\<open>readBlocks\<close> fails, the whole call fails with
  that first error and returns no blocks. First part: the block-count read fails. Second
  part: the count \<open>n\<close> was read, the groups before group \<open>k < n\<close> all decode, and in
  group \<open>k\<close> the header read fails, or the header read succeeds and the transaction-list
  read fails. The result is then the error value: it carries neither a partly filled Block
  nor the blocks decoded before.
\<close>

theorem readBlocks_fail_fast:
  "(fst (readUInt32BE stream) = Inl e \<longrightarrow>
      readBlocks readUInt32BE readBlockHeader readTransactions stream
        = (Inl e, snd (readUInt32BE stream))) \<and>
   (fst (readUInt32BE stream) = Inr n \<and> k < n \<and>
    (\<forall>j<k. \<exists>b. group_result readBlockHeader readTransactions
                 (group_start readBlockHeader readTransactions (snd (readUInt32BE stream)) j)
               = Inr b) \<and>
    (let sk = group_start readBlockHeader readTransactions (snd (readUInt32BE stream)) k
     in fst (readBlockHeader sk) = Inl e \<or>
        ((\<exists>h. fst (readBlockHeader sk) = Inr h) \<and>
         fst (readTransactions (snd (readBlockHeader sk))) = Inl e)) \<longrightarrow>
      fst (readBlocks readUInt32BE readBlockHeader readTransactions stream) = Inl e)"
proof (intro conjI impI)
  assume "fst (readUInt32BE stream) = Inl e"
  then show "readBlocks readUInt32BE readBlockHeader readTransactions stream
        = (Inl e, snd (readUInt32BE stream))"
    by (rule readBlocks_count_fail)
next
  let ?s0 = "snd (readUInt32BE stream)"
  assume a: "fst (readUInt32BE stream) = Inr n \<and> k < n \<and>
    (\<forall>j<k. \<exists>b. group_result readBlockHeader readTransactions
                 (group_start readBlockHeader readTransactions ?s0 j) = Inr b) \<and>
    (let sk = group_start readBlockHeader readTransactions ?s0 k
     in fst (readBlockHeader sk) = Inl e \<or>
        ((\<exists>h. fst (readBlockHeader sk) = Inr h) \<and>
         fst (readTransactions (snd (readBlockHeader sk))) = Inl e))"
  then have fail: "group_result readBlockHeader readTransactions
      (group_start readBlockHeader readTransactions ?s0 k) = Inl e"
    by (simp add: group_result_Inl_iff Let_def)
  have "0 + k < n" using a by simp
  then have "readBlocks_loop readBlockHeader readTransactions n 0 (replicate n None) ?s0
      = (Inl e, group_start readBlockHeader readTransactions ?s0 (Suc k))"
    using a fail by (intro loop_first_error) blast+
  then show "fst (readBlocks readUInt32BE readBlockHeader readTransactions stream) = Inl e"
    using a by (simp add: readBlocks_count_ok)
qed

text \<open>
  Claim C2. When \<^verbatim>\<open>readBlocks\<close> succeeds, the count read says how many blocks it
  returns, and for every index \<open>i\<close> below the count, element \<open>i\<close> is the Block made of
  the header and of the transaction list that the two readers return on group \<open>i\<close> of the
  stream, the list as the reader returned it. The stream is left at the end of the last
  group.
\<close>

theorem readBlocks_result:
  assumes "readBlocks readUInt32BE readBlockHeader readTransactions stream = (Inr blocks, stream')"
  shows "\<exists>n. fst (readUInt32BE stream) = Inr n \<and> length blocks = n \<and>
           stream' = group_start readBlockHeader readTransactions (snd (readUInt32BE stream)) n \<and>
           (\<forall>i<n. \<exists>h txs.
              fst (readBlockHeader
                (group_start readBlockHeader readTransactions (snd (readUInt32BE stream)) i)) = Inr h \<and>
              fst (readTransactions (snd (readBlockHeader
                (group_start readBlockHeader readTransactions (snd (readUInt32BE stream)) i)))) = Inr txs \<and>
              blocks ! i = Some \<lparr>header = h, transactions = txs\<rparr>)"
proof (cases "fst (readUInt32BE stream)")
  case (Inl e)
  then show ?thesis using assms by (simp add: readBlocks_count_fail)
next
  case (Inr n)
  let ?s0 = "snd (readUInt32BE stream)"
  have run: "readBlocks_loop readBlockHeader readTransactions n 0 (replicate n None) ?s0
      = (Inr blocks, stream')"
    using assms Inr by (simp add: readBlocks_count_ok)
  have inv: "stream' = group_start readBlockHeader readTransactions ?s0 (n - 0) \<and>
     length blocks = n \<and>
     (\<forall>j<0. blocks ! j = replicate n None ! j) \<and>
     (\<forall>j<n - 0. \<exists>b. group_result readBlockHeader readTransactions
         (group_start readBlockHeader readTransactions ?s0 j) = Inr b \<and> blocks ! (0 + j) = Some b)"
    by (rule loop_success [OF run]) simp_all
  have "\<forall>i<n. \<exists>h txs.
      fst (readBlockHeader (group_start readBlockHeader readTransactions ?s0 i)) = Inr h \<and>
      fst (readTransactions (snd (readBlockHeader
        (group_start readBlockHeader readTransactions ?s0 i)))) = Inr txs \<and>
      blocks ! i = Some \<lparr>header = h, transactions = txs\<rparr>"
  proof (intro allI impI)
    fix i assume "i < n"
    then obtain b where b: "group_result readBlockHeader readTransactions
         (group_start readBlockHeader readTransactions ?s0 i) = Inr b" "blocks ! i = Some b"
      using inv by force
    then show "\<exists>h txs.
      fst (readBlockHeader (group_start readBlockHeader readTransactions ?s0 i)) = Inr h \<and>
      fst (readTransactions (snd (readBlockHeader
        (group_start readBlockHeader readTransactions ?s0 i)))) = Inr txs \<and>
      blocks ! i = Some \<lparr>header = h, transactions = txs\<rparr>"
      by (auto simp: group_result_Inr_iff)
  qed
  then show ?thesis using Inr inv by simp
qed

text \<open>
  Claim C3. When the block-count read returns 0, \<^verbatim>\<open>readBlocks\<close> returns the empty
  sequence and leaves the stream in the state in which the count read left it: the cursor has
  moved by the count field and by nothing else, whatever the header reader and the
  transaction-list reader would do, so neither of them has run. Second part, on the Byte
  Cursor: when the next four bytes are zero, the cursor moves by exactly four bytes.
\<close>

theorem readBlocks_zero_count:
  "(readUInt32BE stream = (Inr 0, stream0) \<longrightarrow>
      readBlocks readUInt32BE readBlockHeader readTransactions stream = (Inr [], stream0)) \<and>
   (take 4 (source c) = [0, 0, 0, 0] \<longrightarrow>
      readBlocks (readUInt W4) readBlockHeader' readTransactions' c
        = (Inr [], c\<lparr>source := drop 4 (source c), position := position c + 4\<rparr>))"
proof (intro conjI impI)
  assume "readUInt32BE stream = (Inr 0, stream0)"
  then show "readBlocks readUInt32BE readBlockHeader readTransactions stream = (Inr [], stream0)"
    by (simp add: readBlocks_def loop_done)
next
  assume z: "take 4 (source c) = [0, 0, 0, 0]"
  have "length (take 4 (source c)) = 4" by (simp only: z) simp
  then have "4 \<le> length (source c)" by simp
  then have "readUInt W4 c
      = (Inr 0, c\<lparr>source := drop 4 (source c), position := position c + 4\<rparr>)"
    using z by (simp add: readUInt_def readFixed_def be_value_def)
  then show "readBlocks (readUInt W4) readBlockHeader' readTransactions' c
        = (Inr [], c\<lparr>source := drop 4 (source c), position := position c + 4\<rparr>)"
    by (simp add: readBlocks_def loop_done)
qed

subsection \<open>The byte cursor\<close>

lemma readUInt_snd: "snd (readUInt w c) = snd (readFixed (width_bytes w) c)"
  by (simp add: readUInt_def split: prod.splits sum.splits)

lemma readLengthPrefixed_snd:
  "snd (readLengthPrefixed m w c) = snd (readUInt w c) \<or>
   (\<exists>n. snd (readLengthPrefixed m w c) = snd (readFixed n (snd (readUInt w c))))"
  by (auto simp: readLengthPrefixed_def split: prod.splits sum.splits)

lemma advanced_refl: "advanced c c"
  by (simp add: advanced_def)

lemma advanced_trans:
  assumes ab: "advanced a b" and bc: "advanced b c"
  shows "advanced a c"
proof -
  have p: "position a \<le> position b" "position b \<le> position c"
    using ab bc by (simp_all add: advanced_def)
  have sb: "source b = drop (position b - position a) (source a)"
    using ab by (simp add: advanced_def)
  have sc: "source c = drop (position c - position b) (source b)"
    using bc by (simp add: advanced_def)
  have lb: "length (source b) = length (source a) - (position b - position a)"
    by (subst sb) simp
  have l: "position b - position a \<le> length (source a)"
    "position c - position b \<le> length (source b)"
    using ab bc by (simp_all add: advanced_def)
  have e: "(position c - position b) + (position b - position a) = position c - position a"
    using p by arith
  have "source c = drop (position c - position b) (drop (position b - position a) (source a))"
    by (subst sc, subst sb) (rule refl)
  also have "\<dots> = drop (position c - position a) (source a)"
    by (simp only: drop_drop e)
  finally have s: "source c = drop (position c - position a) (source a)" .
  have 1: "position a \<le> position c" using p by arith
  have 2: "position c - position a \<le> length (source a)" using p l lb by arith
  show ?thesis unfolding advanced_def using 1 2 s by (intro conjI)
qed

lemma advanced_length:
  "advanced c c' \<Longrightarrow> position c' + length (source c') = position c + length (source c)"
proof -
  assume a: "advanced c c'"
  then have s: "source c' = drop (position c' - position c) (source c)"
    by (simp add: advanced_def)
  have "length (source c') = length (source c) - (position c' - position c)"
    by (subst s) simp
  moreover have "position c \<le> position c'" "position c' - position c \<le> length (source c)"
    using a by (simp_all add: advanced_def)
  ultimately show ?thesis by arith
qed

lemma readFixed_advanced: "advanced c (snd (readFixed n c))"
  by (simp add: readFixed_def advanced_def)

lemma readUInt_advanced: "advanced c (snd (readUInt w c))"
  by (simp add: readUInt_snd readFixed_advanced)

lemma readLengthPrefixed_advanced: "advanced c (snd (readLengthPrefixed m w c))"
proof -
  have u: "advanced c (snd (readUInt w c))" by (rule readUInt_advanced)
  from readLengthPrefixed_snd [of m w c] show ?thesis
  proof
    assume "snd (readLengthPrefixed m w c) = snd (readUInt w c)"
    then show ?thesis using u by simp
  next
    assume "\<exists>n. snd (readLengthPrefixed m w c) = snd (readFixed n (snd (readUInt w c)))"
    then obtain n where n: "snd (readLengthPrefixed m w c) = snd (readFixed n (snd (readUInt w c)))"
      by blast
    have "advanced (snd (readUInt w c)) (snd (readFixed n (snd (readUInt w c))))"
      by (rule readFixed_advanced)
    with u have "advanced c (snd (readFixed n (snd (readUInt w c))))" by (rule advanced_trans)
    then show ?thesis using n by simp
  qed
qed

lemma run_read_advanced: "advanced c (snd (run_read m op c))"
  by (cases op) (simp_all add: readUInt_advanced readFixed_advanced readLengthPrefixed_advanced)

lemma run_reads_advanced:
  "c' \<in> set (run_reads m ops c) \<Longrightarrow> advanced c c'"
proof (induction ops arbitrary: c)
  case Nil
  then show ?case by simp
next
  case (Cons op ops)
  let ?c1 = "snd (run_read m op c)"
  have a: "advanced c ?c1" by (rule run_read_advanced)
  from Cons.prems have "c' = ?c1 \<or> c' \<in> set (run_reads m ops ?c1)" by (simp add: Let_def)
  then show ?case
  proof
    assume "c' = ?c1"
    then show ?thesis using a by simp
  next
    assume "c' \<in> set (run_reads m ops ?c1)"
    then have "advanced ?c1 c'" by (rule Cons.IH)
    with a show ?thesis by (rule advanced_trans)
  qed
qed

lemma run_reads_sorted: "sorted (map position (c # run_reads m ops c))"
proof (induction ops arbitrary: c)
  case Nil
  show ?case by simp
next
  case (Cons op ops)
  let ?c1 = "snd (run_read m op c)"
  have "sorted (map position (?c1 # run_reads m ops ?c1))" by (rule Cons.IH)
  moreover have "\<forall>c' \<in> set (?c1 # run_reads m ops ?c1). position c \<le> position c'"
  proof
    fix c' assume "c' \<in> set (?c1 # run_reads m ops ?c1)"
    then have "c' \<in> set (run_reads m (op # ops) c)" by (simp add: Let_def)
    then have "advanced c c'" by (rule run_reads_advanced)
    then show "position c \<le> position c'" by (simp add: advanced_def)
  qed
  ultimately show ?case by (simp add: Let_def)
qed

lemma readFixed_Inr:
  "readFixed n c = (Inr bs, c') \<Longrightarrow>
     n \<le> length (source c) \<and> bs = take n (source c) \<and> length bs = n \<and>
     source c' = drop n (source c) \<and> position c' = position c + n"
  by (auto simp: readFixed_def split: if_splits)

lemma readFixed_Inl:
  "readFixed n c = (Inl e, c') \<Longrightarrow> e = TruncatedStream \<and> length (source c) < n \<and> c' = c"
  by (auto simp: readFixed_def split: if_splits)

lemma readFixed_short: "length (source c) < n \<Longrightarrow> readFixed n c = (Inl TruncatedStream, c)"
  by (simp add: readFixed_def)

lemma readUInt_Inr:
  "readUInt w c = (Inr v, c') \<Longrightarrow>
     width_bytes w \<le> length (source c) \<and> v = be_value (take (width_bytes w) (source c)) \<and>
     source c' = drop (width_bytes w) (source c) \<and> position c' = position c + width_bytes w"
  by (auto simp: readUInt_def split: prod.splits sum.splits dest: readFixed_Inr)

lemma readUInt_Inl:
  "readUInt w c = (Inl e, c') \<Longrightarrow>
     e = TruncatedStream \<and> length (source c) < width_bytes w \<and> c' = c"
  by (auto simp: readUInt_def split: prod.splits sum.splits dest: readFixed_Inl)

lemma readUInt_short:
  "length (source c) < width_bytes w \<Longrightarrow> readUInt w c = (Inl TruncatedStream, c)"
  by (simp add: readUInt_def readFixed_short)

lemma readUInt_enough:
  "width_bytes w \<le> length (source c) \<Longrightarrow>
     readUInt w c = (Inr (be_value (take (width_bytes w) (source c))),
       c\<lparr>source := drop (width_bytes w) (source c), position := position c + width_bytes w\<rparr>)"
  by (simp add: readUInt_def readFixed_def)

lemma readLengthPrefixed_Inr:
  assumes "readLengthPrefixed m w c = (Inr bs, c')"
  shows "length bs = be_value (take (width_bytes w) (source c)) \<and> length bs \<le> m \<and>
     width_bytes w + length bs \<le> length (source c) \<and>
     bs = take (length bs) (drop (width_bytes w) (source c)) \<and>
     source c' = drop (width_bytes w + length bs) (source c) \<and>
     position c' = position c + width_bytes w + length bs"
proof -
  obtain r c1 where u: "readUInt w c = (r, c1)" by (cases "readUInt w c")
  show ?thesis
  proof (cases r)
    case (Inl e)
    then show ?thesis using assms u by (simp add: readLengthPrefixed_def)
  next
    case (Inr len)
    note ui = readUInt_Inr [OF u [unfolded Inr]]
    have le: "\<not> m < len" and f: "readFixed len c1 = (Inr bs, c')"
      using assms u Inr by (auto simp: readLengthPrefixed_def split: if_splits)
    note fi = readFixed_Inr [OF f]
    have lb: "length bs = len" using fi by simp
    have len: "len = be_value (take (width_bytes w) (source c))" using ui by simp
    have 1: "length bs = be_value (take (width_bytes w) (source c))" using lb len by simp
    have 2: "length bs \<le> m" using le lb by simp
    have "len \<le> length (source c1)" using fi by simp
    then have "len \<le> length (source c) - width_bytes w" using ui by simp
    moreover have "width_bytes w \<le> length (source c)" using ui by simp
    ultimately have 3: "width_bytes w + length bs \<le> length (source c)" using lb by arith
    have 4: "bs = take (length bs) (drop (width_bytes w) (source c))" using fi ui lb by simp
    have 5: "source c' = drop (width_bytes w + length bs) (source c)"
      using fi ui lb by (simp add: add.commute)
    have 6: "position c' = position c + width_bytes w + length bs" using fi ui lb by simp
    show ?thesis using 1 2 3 4 5 6 by (intro conjI)
  qed
qed

lemma readLengthPrefixed_Inl:
  assumes "readLengthPrefixed m w c = (Inl e, c')"
  shows "(e = MalformedLength \<and> width_bytes w \<le> length (source c) \<and>
            m < be_value (take (width_bytes w) (source c))) \<or>
         (e = TruncatedStream \<and>
            (length (source c) < width_bytes w \<or>
             length (source c) < width_bytes w + be_value (take (width_bytes w) (source c))))"
proof -
  obtain r c1 where u: "readUInt w c = (r, c1)" by (cases "readUInt w c")
  show ?thesis
  proof (cases r)
    case (Inl e')
    then have "e' = e" using assms u by (simp add: readLengthPrefixed_def)
    then show ?thesis using readUInt_Inl [OF u [unfolded Inl]] by simp
  next
    case (Inr len)
    note ui = readUInt_Inr [OF u [unfolded Inr]]
    show ?thesis
    proof (cases "m < len")
      case True
      then have "e = MalformedLength" using assms u Inr by (simp add: readLengthPrefixed_def)
      then show ?thesis using True ui by simp
    next
      case False
      then have f: "readFixed len c1 = (Inl e, c')"
        using assms u Inr by (simp add: readLengthPrefixed_def)
      note fi = readFixed_Inl [OF f]
      have "length (source c) < width_bytes w + len" using fi ui by simp arith
      then show ?thesis using fi ui by simp
    qed
  qed
qed

lemma butlast_source_length:
  "length (source (c\<lparr>source := butlast (source c)\<rparr>)) = length (source c) - 1"
  by simp

lemma truncated_readFixed:
  assumes "readFixed n c = (Inr bs, c')" "source c' = []" "source c \<noteq> []"
  shows "fst (readFixed n (c\<lparr>source := butlast (source c)\<rparr>)) = Inl TruncatedStream"
proof -
  note fi = readFixed_Inr [OF assms(1)]
  have "length (source c) = n" using fi assms(2) by simp
  moreover have "0 < length (source c)" using assms(3) by simp
  ultimately have "length (source (c\<lparr>source := butlast (source c)\<rparr>)) < n" by simp
  then show ?thesis by (simp add: readFixed_short)
qed

lemma truncated_readUInt:
  assumes "readUInt w c = (Inr v, c')" "source c' = []" "source c \<noteq> []"
  shows "fst (readUInt w (c\<lparr>source := butlast (source c)\<rparr>)) = Inl TruncatedStream"
proof -
  note ui = readUInt_Inr [OF assms(1)]
  have "length (source c) = width_bytes w" using ui assms(2) by simp
  moreover have "0 < length (source c)" using assms(3) by simp
  ultimately have "length (source (c\<lparr>source := butlast (source c)\<rparr>)) < width_bytes w" by simp
  then show ?thesis by (simp add: readUInt_short)
qed

lemma truncated_readLengthPrefixed:
  assumes "readLengthPrefixed m w c = (Inr bs, c')" "source c' = []" "source c \<noteq> []"
  shows "fst (readLengthPrefixed m w (c\<lparr>source := butlast (source c)\<rparr>)) = Inl TruncatedStream"
proof -
  let ?t = "c\<lparr>source := butlast (source c)\<rparr>"
  let ?len = "be_value (take (width_bytes w) (source c))"
  note li = readLengthPrefixed_Inr [OF assms(1)]
  have total: "length (source c) = width_bytes w + ?len" using li assms(2) by simp
  have lt: "length (source ?t) = width_bytes w + ?len - 1" using total by simp
  show ?thesis
  proof (cases "?len = 0")
    case True
    have "0 < length (source c)" using assms(3) by simp
    then have "length (source ?t) < width_bytes w" using total True by simp
    then show ?thesis by (simp add: readLengthPrefixed_def readUInt_short)
  next
    case False
    then have enough: "width_bytes w \<le> length (source ?t)" using lt by simp
    have "width_bytes w < length (source c)" using total False by simp
    then have same: "take (width_bytes w) (source ?t) = take (width_bytes w) (source c)"
      by (simp add: take_butlast)
    have le: "\<not> m < ?len" using li by simp
    let ?c1 = "?t\<lparr>source := drop (width_bytes w) (source ?t),
                  position := position ?t + width_bytes w\<rparr>"
    have u: "readUInt w ?t = (Inr ?len, ?c1)"
      using readUInt_enough [OF enough] same by simp
    have "length (source ?c1) < ?len" using lt False by simp
    then have "readFixed ?len ?c1 = (Inl TruncatedStream, ?c1)" by (rule readFixed_short)
    then show ?thesis using u le by (simp add: readLengthPrefixed_def)
  qed
qed

lemma apfst_map_sum_Inr:
  "apfst (map_sum id f) p = (Inr y, c') \<Longrightarrow> \<exists>x. p = (Inr x, c')"
  by (cases p; cases "fst p") auto

text \<open>
  Claim C6. Each read primitive of the Byte Cursor returns exactly what was requested or
  fails. \<open>readFixed n\<close> returns the next \<open>n\<close> bytes, and fails with
  \<open>TruncatedStream\<close> only when fewer than \<open>n\<close> remain; \<open>readUInt\<close> returns the value
  of exactly the bytes of its width, and fails with \<open>TruncatedStream\<close> only when fewer
  remain; \<open>readLengthPrefixed\<close> returns exactly as many bytes as the prefix declares, and
  fails with \<open>MalformedLength\<close> when the declared length exceeds the bound or with
  \<open>TruncatedStream\<close> when the prefix or the declared bytes are not all there. Last part:
  when a read succeeds and uses the source up, the same read on the source without its
  final byte fails with \<open>TruncatedStream\<close>.
\<close>

theorem cursor_reads_exact_or_fail:
  "(readFixed n c = (Inr bs, c') \<longrightarrow>
      length bs = n \<and> bs = take n (source c) \<and> position c' = position c + n) \<and>
   (readFixed n c = (Inl e, c') \<longrightarrow> e = TruncatedStream \<and> length (source c) < n) \<and>
   (readUInt w c = (Inr v, c') \<longrightarrow>
      width_bytes w \<le> length (source c) \<and> v = be_value (take (width_bytes w) (source c)) \<and>
      position c' = position c + width_bytes w) \<and>
   (readUInt w c = (Inl e, c') \<longrightarrow> e = TruncatedStream \<and> length (source c) < width_bytes w) \<and>
   (readLengthPrefixed m w c = (Inr bs, c') \<longrightarrow>
      length bs = be_value (take (width_bytes w) (source c)) \<and>
      bs = take (length bs) (drop (width_bytes w) (source c)) \<and>
      position c' = position c + width_bytes w + length bs) \<and>
   (readLengthPrefixed m w c = (Inl e, c') \<longrightarrow>
      (e = MalformedLength \<and> m < be_value (take (width_bytes w) (source c))) \<or>
      (e = TruncatedStream \<and>
         (length (source c) < width_bytes w \<or>
          length (source c) < width_bytes w + be_value (take (width_bytes w) (source c))))) \<and>
   (run_read m op c = (Inr rv, c') \<and> source c' = [] \<and> source c \<noteq> [] \<longrightarrow>
      fst (run_read m op (c\<lparr>source := butlast (source c)\<rparr>)) = Inl TruncatedStream)"
proof -
  have 1: "readFixed n c = (Inr bs, c') \<longrightarrow>
      length bs = n \<and> bs = take n (source c) \<and> position c' = position c + n"
    using readFixed_Inr [of n c bs c'] by simp
  have 2: "readFixed n c = (Inl e, c') \<longrightarrow> e = TruncatedStream \<and> length (source c) < n"
    using readFixed_Inl [of n c e c'] by simp
  have 3: "readUInt w c = (Inr v, c') \<longrightarrow>
      width_bytes w \<le> length (source c) \<and> v = be_value (take (width_bytes w) (source c)) \<and>
      position c' = position c + width_bytes w"
    using readUInt_Inr [of w c v c'] by simp
  have 4: "readUInt w c = (Inl e, c') \<longrightarrow>
      e = TruncatedStream \<and> length (source c) < width_bytes w"
    using readUInt_Inl [of w c e c'] by simp
  have 5: "readLengthPrefixed m w c = (Inr bs, c') \<longrightarrow>
      length bs = be_value (take (width_bytes w) (source c)) \<and>
      bs = take (length bs) (drop (width_bytes w) (source c)) \<and>
      position c' = position c + width_bytes w + length bs"
    using readLengthPrefixed_Inr [of m w c bs c'] by blast
  have 6: "readLengthPrefixed m w c = (Inl e, c') \<longrightarrow>
      (e = MalformedLength \<and> m < be_value (take (width_bytes w) (source c))) \<or>
      (e = TruncatedStream \<and>
         (length (source c) < width_bytes w \<or>
          length (source c) < width_bytes w + be_value (take (width_bytes w) (source c))))"
    using readLengthPrefixed_Inl [of m w c e c'] by blast
  have 7: "run_read m op c = (Inr rv, c') \<and> source c' = [] \<and> source c \<noteq> [] \<longrightarrow>
      fst (run_read m op (c\<lparr>source := butlast (source c)\<rparr>)) = Inl TruncatedStream"
  proof
  assume a: "run_read m op c = (Inr rv, c') \<and> source c' = [] \<and> source c \<noteq> []"
  show "fst (run_read m op (c\<lparr>source := butlast (source c)\<rparr>)) = Inl TruncatedStream"
  proof (cases op)
    case (ReadUInt w')
    then obtain v' where "readUInt w' c = (Inr v', c')"
      using a apfst_map_sum_Inr [of UIntValue "readUInt w' c" rv c'] by auto
    from truncated_readUInt [OF this] a show ?thesis using ReadUInt by simp
  next
    case (ReadFixed n')
    then obtain bs' where "readFixed n' c = (Inr bs', c')"
      using a apfst_map_sum_Inr [of BytesValue "readFixed n' c" rv c'] by auto
    from truncated_readFixed [OF this] a show ?thesis using ReadFixed by simp
  next
    case (ReadLengthPrefixed w')
    then obtain bs' where "readLengthPrefixed m w' c = (Inr bs', c')"
      using a apfst_map_sum_Inr [of BytesValue "readLengthPrefixed m w' c" rv c'] by auto
    from truncated_readLengthPrefixed [OF this] a show ?thesis using ReadLengthPrefixed by simp
  qed
  qed
  show ?thesis using 1 2 3 4 5 6 7 by (intro conjI)
qed

text \<open>
  Claim C7. Along any sequence of operations on a Byte Cursor, failed ones included, the
  positions never decrease, and after each operation the position has moved by exactly the
  number of bytes that have left the source: the bytes still in the source are those of the
  start without that many leading bytes.
\<close>

theorem cursor_position_only_advances:
  "sorted (map position (c # run_reads m ops c)) \<and>
   (\<forall>c' \<in> set (run_reads m ops c).
      position c \<le> position c' \<and>
      length (source c') \<le> length (source c) \<and>
      position c' - position c = length (source c) - length (source c') \<and>
      source c' = drop (position c' - position c) (source c))"
proof (intro conjI ballI)
  show "sorted (map position (c # run_reads m ops c))" by (rule run_reads_sorted)
next
  fix c' assume "c' \<in> set (run_reads m ops c)"
  then have a: "advanced c c'" by (rule run_reads_advanced)
  have l: "position c' + length (source c') = position c + length (source c)"
    using a by (rule advanced_length)
  have p: "position c \<le> position c'" using a by (simp add: advanced_def)
  show "position c \<le> position c'" by (rule p)
  show "length (source c') \<le> length (source c)" using l p by arith
  show "position c' - position c = length (source c) - length (source c')" using l p by arith
  show "source c' = drop (position c' - position c) (source c)" using a by (simp add: advanced_def)
qed

lemma ex_fixed_ok:
  "readFixed 2 (open_cursor [1, 2, 3]) = (Inr [1, 2], \<lparr>source = [3], position = 2\<rparr>)"
  by code_simp

lemma ex_fixed_short:
  "readFixed 4 (open_cursor [1, 2, 3]) = (Inl TruncatedStream, open_cursor [1, 2, 3])"
  by code_simp

lemma ex_prefixed_ok:
  "run_read 10 (ReadLengthPrefixed W1) (open_cursor [2, 7, 8])
     = (Inr (BytesValue [7, 8]), \<lparr>source = [], position = 3\<rparr>)"
  by code_simp

lemma ex_prefixed_too_long:
  "readLengthPrefixed 10 W1 (open_cursor [11, 7, 8])
     = (Inl MalformedLength, \<lparr>source = [7, 8], position = 1\<rparr>)"
  by code_simp

theorem cursor_reads_exact_or_fail_witness:
  "readFixed 2 (open_cursor [1, 2, 3]) = (Inr [1, 2], \<lparr>source = [3], position = 2\<rparr>) \<and>
   readFixed 4 (open_cursor [1, 2, 3]) = (Inl TruncatedStream, open_cursor [1, 2, 3]) \<and>
   length (source (open_cursor [1, 2, 3])) < 4 \<and>
   readLengthPrefixed 10 W1 (open_cursor [11, 7, 8])
     = (Inl MalformedLength, \<lparr>source = [7, 8], position = 1\<rparr>) \<and>
   run_read 10 (ReadLengthPrefixed W1) (open_cursor [2, 7, 8])
     = (Inr (BytesValue [7, 8]), \<lparr>source = [], position = 3\<rparr>) \<and>
   source (open_cursor [2, 7, 8]) \<noteq> [] \<and>
   fst (run_read 10 (ReadLengthPrefixed W1)
          ((open_cursor [2, 7, 8])\<lparr>source := butlast (source (open_cursor [2, 7, 8]))\<rparr>))
     = Inl TruncatedStream"
proof -
  have ne: "source (open_cursor [2, 7, 8]) \<noteq> []" by (simp add: open_cursor_def)
  have short: "length (source (open_cursor [1, 2, 3])) < 4"
    using cursor_reads_exact_or_fail [where n = 4 and c = "open_cursor [1, 2, 3]"
        and e = TruncatedStream and c' = "open_cursor [1, 2, 3]"] ex_fixed_short
    by blast
  have trunc: "fst (run_read 10 (ReadLengthPrefixed W1)
          ((open_cursor [2, 7, 8])\<lparr>source := butlast (source (open_cursor [2, 7, 8]))\<rparr>))
     = Inl TruncatedStream"
    using cursor_reads_exact_or_fail [where m = 10 and op = "ReadLengthPrefixed W1"
        and c = "open_cursor [2, 7, 8]" and rv = "BytesValue [7, 8]"
        and c' = "\<lparr>source = [], position = 3\<rparr>"] ex_prefixed_ok ne
    by simp
  show ?thesis
    using ex_fixed_ok ex_fixed_short short ex_prefixed_too_long ex_prefixed_ok ne trunc
    by (intro conjI)
qed

lemma example_reads_states:
  "run_reads 10 example_reads (open_cursor [3, 7, 8])
     = [\<lparr>source = [7, 8], position = 1\<rparr>, \<lparr>source = [8], position = 2\<rparr>,
        \<lparr>source = [], position = 3\<rparr>]"
  by code_simp

lemma example_reads_failure:
  "fst (run_read 10 (ReadLengthPrefixed W1) \<lparr>source = [7, 8], position = 1\<rparr>)
     = Inl TruncatedStream"
  by code_simp

theorem cursor_position_only_advances_witness:
  "run_reads 10 example_reads (open_cursor [3, 7, 8])
     = [\<lparr>source = [7, 8], position = 1\<rparr>, \<lparr>source = [8], position = 2\<rparr>,
        \<lparr>source = [], position = 3\<rparr>] \<and>
   fst (run_read 10 (ReadLengthPrefixed W1) \<lparr>source = [7, 8], position = 1\<rparr>)
     = Inl TruncatedStream \<and>
   sorted (map position (open_cursor [3, 7, 8] # run_reads 10 example_reads (open_cursor [3, 7, 8]))) \<and>
   \<lparr>source = [8], position = 2\<rparr> \<in> set (run_reads 10 example_reads (open_cursor [3, 7, 8])) \<and>
   position (open_cursor [3, 7, 8]) \<le> position \<lparr>source = [8], position = 2\<rparr> \<and>
   position \<lparr>source = [8], position = 2\<rparr> - position (open_cursor [3, 7, 8])
     = length (source (open_cursor [3, 7, 8])) - length (source \<lparr>source = [8], position = 2\<rparr>) \<and>
   source \<lparr>source = [8], position = 2\<rparr>
     = drop (position \<lparr>source = [8], position = 2\<rparr> - position (open_cursor [3, 7, 8]))
         (source (open_cursor [3, 7, 8]))"
proof -
  note inv = cursor_position_only_advances [of "open_cursor [3, 7, 8]" 10 example_reads]
  have mem: "\<lparr>source = [8], position = 2\<rparr>
      \<in> set (run_reads 10 example_reads (open_cursor [3, 7, 8]))"
    by (simp add: example_reads_states)
  have srt: "sorted (map position
      (open_cursor [3, 7, 8] # run_reads 10 example_reads (open_cursor [3, 7, 8])))"
    using inv by blast
  have at: "position (open_cursor [3, 7, 8]) \<le> position \<lparr>source = [8], position = 2\<rparr> \<and>
      position \<lparr>source = [8], position = 2\<rparr> - position (open_cursor [3, 7, 8])
        = length (source (open_cursor [3, 7, 8]))
          - length (source \<lparr>source = [8], position = 2\<rparr>) \<and>
      source \<lparr>source = [8], position = 2\<rparr>
        = drop (position \<lparr>source = [8], position = 2\<rparr> - position (open_cursor [3, 7, 8]))
            (source (open_cursor [3, 7, 8]))"
    using inv mem by blast
  show ?thesis
    using example_reads_states example_reads_failure srt mem at by (intro conjI) blast+
qed

subsection \<open>Where a length is compared with the bound\<close>



subsection \<open>Examples of the block-list decoder\<close>

lemma truncated_count: "fst (readUInt W4 (open_cursor (butlast two_blocks))) = Inr 2"
  by code_simp

lemma truncated_group0:
  "group_result example_readBlockHeader example_readTransactions
     (group_start example_readBlockHeader example_readTransactions (snd (readUInt W4 (open_cursor (butlast two_blocks)))) 0) = Inr block_A"
  by code_simp

lemma truncated_group1_header:
  "fst (example_readBlockHeader (group_start example_readBlockHeader example_readTransactions (snd (readUInt W4 (open_cursor (butlast two_blocks)))) 1))
     = Inr (header block_B)"
  by code_simp

lemma truncated_group1_txs:
  "fst (example_readTransactions (snd (example_readBlockHeader
     (group_start example_readBlockHeader example_readTransactions (snd (readUInt W4 (open_cursor (butlast two_blocks)))) 1))))
     = Inl TruncatedStream"
  by code_simp

lemma short_count: "fst (readUInt W4 (open_cursor [0, 0])) = Inl TruncatedStream"
  by code_simp

theorem readBlocks_fail_fast_witness:
  "fst (readUInt W4 (open_cursor [0, 0])) = Inl TruncatedStream \<and>
   readBlocks (readUInt W4) example_readBlockHeader example_readTransactions (open_cursor [0, 0])
     = (Inl TruncatedStream, snd (readUInt W4 (open_cursor [0, 0]))) \<and>
   fst (readUInt W4 (open_cursor (butlast two_blocks))) = Inr 2 \<and>
   fst (example_readTransactions (snd (example_readBlockHeader
     (group_start example_readBlockHeader example_readTransactions (snd (readUInt W4 (open_cursor (butlast two_blocks)))) 1))))
     = Inl TruncatedStream \<and>
   fst (readBlocks (readUInt W4) example_readBlockHeader example_readTransactions (open_cursor (butlast two_blocks)))
     = Inl TruncatedStream"
proof -
  have a: "readBlocks (readUInt W4) example_readBlockHeader example_readTransactions (open_cursor [0, 0])
     = (Inl TruncatedStream, snd (readUInt W4 (open_cursor [0, 0])))"
    using readBlocks_fail_fast [of "readUInt W4" "open_cursor [0, 0]" TruncatedStream
        example_readBlockHeader example_readTransactions 0 0] short_count
    by simp
  have b: "fst (readBlocks (readUInt W4) example_readBlockHeader example_readTransactions (open_cursor (butlast two_blocks)))
     = Inl TruncatedStream"
    using readBlocks_fail_fast [of "readUInt W4" "open_cursor (butlast two_blocks)"
        TruncatedStream example_readBlockHeader example_readTransactions 2 1]
      truncated_count truncated_group0 truncated_group1_header truncated_group1_txs
    by (simp add: Let_def)
  show ?thesis using a b short_count truncated_count truncated_group1_txs by simp
qed

lemma two_blocks_decode:
  "readBlocks (readUInt W4) example_readBlockHeader example_readTransactions
     (open_cursor two_blocks) = (Inr [Some block_A, Some block_B], \<lparr>source = [], position = 33\<rparr>)"
  by code_simp

theorem readBlocks_result_witness:
  "readBlocks (readUInt W4) example_readBlockHeader example_readTransactions (open_cursor two_blocks)
     = (Inr [Some block_A, Some block_B], \<lparr>source = [], position = 33\<rparr>) \<and>
   (\<exists>n. fst (readUInt W4 (open_cursor two_blocks)) = Inr n \<and>
      length [Some block_A, Some block_B] = n \<and>
      \<lparr>source = [], position = 33\<rparr>
        = group_start example_readBlockHeader example_readTransactions (snd (readUInt W4 (open_cursor two_blocks))) n \<and>
      (\<forall>i<n. \<exists>h txs.
         fst (example_readBlockHeader (group_start example_readBlockHeader example_readTransactions (snd (readUInt W4 (open_cursor two_blocks))) i))
           = Inr h \<and>
         fst (example_readTransactions (snd (example_readBlockHeader
           (group_start example_readBlockHeader example_readTransactions (snd (readUInt W4 (open_cursor two_blocks))) i)))) = Inr txs \<and>
         [Some block_A, Some block_B] ! i = Some \<lparr>header = h, transactions = txs\<rparr>))"
  using two_blocks_decode readBlocks_result [OF two_blocks_decode] by (rule conjI)

lemma zero_count_read:
  "readUInt W4 (open_cursor [0, 0, 0, 0, 9, 9]) = (Inr 0, \<lparr>source = [9, 9], position = 4\<rparr>)"
  by code_simp

theorem readBlocks_zero_count_witness:
  "readUInt W4 (open_cursor [0, 0, 0, 0, 9, 9]) = (Inr 0, \<lparr>source = [9, 9], position = 4\<rparr>) \<and>
   take 4 (source (open_cursor [0, 0, 0, 0, 9, 9])) = [0, 0, 0, 0] \<and>
   readBlocks (readUInt W4) example_readBlockHeader example_readTransactions
     (open_cursor [0, 0, 0, 0, 9, 9]) = (Inr [], \<lparr>source = [9, 9], position = 4\<rparr>)"
proof -
  note z = readBlocks_zero_count [of "readUInt W4" "open_cursor [0, 0, 0, 0, 9, 9]"
      "\<lparr>source = [9, 9], position = 4\<rparr>" example_readBlockHeader example_readTransactions
      "open_cursor [0, 0, 0, 0, 9, 9]" example_readBlockHeader example_readTransactions]
  have t: "take 4 (source (open_cursor [0, 0, 0, 0, 9, 9])) = [0, 0, 0, 0]"
    by (simp add: open_cursor_def)
  have r: "readBlocks (readUInt W4) example_readBlockHeader example_readTransactions
     (open_cursor [0, 0, 0, 0, 9, 9]) = (Inr [], \<lparr>source = [9, 9], position = 4\<rparr>)"
    using z zero_count_read by blast
  show ?thesis using zero_count_read t r by (intro conjI)
qed









lemma truncated_group1:
  "group_result example_readBlockHeader example_readTransactions
     (group_start example_readBlockHeader example_readTransactions (snd (readUInt W4 (open_cursor (butlast two_blocks)))) 1)
     = Inl TruncatedStream"
  by code_simp




end
